theory Spec2Isabelle
  imports Main "HOL-Library.Word"
begin

section \<open>JavaScript strings\<close>

text \<open>
  A JavaScript string is a sequence of UTF-16 code units; \<open>length\<close>, \<open>substring\<close>,
  \<open>split\<close>, \<open>trim\<close> and a regular expression without the \<open>u\<close> flag all work on code
  units. Every character the program tests for (digits, the bullet glyph U+2022, the
  white space of \<open>trim\<close> and \<open>\s\<close>) is a single code unit.
\<close>

type_synonym code_unit = "16 word"
type_synonym jsstring = "code_unit list"

definition js :: "string \<Rightarrow> jsstring" where
  \<comment> \<open>an ASCII literal as a JavaScript string\<close>
  "js s = map (\<lambda>c. of_nat (of_char c)) s"

definition LF :: code_unit where "LF = 0x0A"
definition HYPHEN :: code_unit where "HYPHEN = 0x2D"
definition ASTERISK :: code_unit where "ASTERISK = 0x2A"
definition BULLET :: code_unit where "BULLET = 0x2022"
definition FULL_STOP :: code_unit where "FULL_STOP = 0x2E"
definition COLON :: code_unit where "COLON = 0x3A"

definition is_line_terminator :: "code_unit \<Rightarrow> bool" where
  \<comment> \<open>ECMAScript LineTerminator: LF, CR, LS, PS\<close>
  "is_line_terminator c = (c \<in> set [0x0A, 0x0D, 0x2028, 0x2029])"

definition is_space :: "code_unit \<Rightarrow> bool" where
  \<comment> \<open>ECMAScript WhiteSpace and LineTerminator: what \<open>trim\<close> strips and \<open>\s\<close> matches\<close>
  "is_space c =
     (c \<in> set [0x09, 0x0B, 0x0C, 0x20, 0xA0, 0x1680, 0x202F, 0x205F, 0x3000, 0xFEFF]
      \<or> (0x2000 \<le> c \<and> c \<le> 0x200A) \<or> is_line_terminator c)"

definition is_digit :: "code_unit \<Rightarrow> bool" where
  \<comment> \<open>\<open>\d\<close>\<close>
  "is_digit c = (0x30 \<le> c \<and> c \<le> 0x39)"

definition is_dot :: "code_unit \<Rightarrow> bool" where
  \<comment> \<open>\<open>\.\<close>\<close>
  "is_dot c = (c = FULL_STOP)"

definition is_bullet :: "code_unit \<Rightarrow> bool" where
  \<comment> \<open>the class of bullet glyphs: U+2022, hyphen, asterisk\<close>
  "is_bullet c = (c \<in> set [BULLET, HYPHEN, ASTERISK])"

definition is_hyphen :: "code_unit \<Rightarrow> bool" where
  "is_hyphen c = (c = HYPHEN)"

definition is_any :: "code_unit \<Rightarrow> bool" where
  \<comment> \<open>\<open>.\<close> without the \<open>s\<close> flag: any code unit but a line terminator\<close>
  "is_any c = (\<not> is_line_terminator c)"

definition trim :: "jsstring \<Rightarrow> jsstring" where
  \<comment> \<open>\<open>String.prototype.trim\<close>\<close>
  "trim s = rev (dropWhile is_space (rev (dropWhile is_space s)))"

fun split_from :: "jsstring \<Rightarrow> jsstring \<Rightarrow> jsstring list" where
  "split_from cur [] = [cur]"
| "split_from cur (c # cs) =
     (if c = LF then cur # split_from [] cs else split_from (cur @ [c]) cs)"

definition split_lines :: "jsstring \<Rightarrow> jsstring list" where
  \<comment> \<open>\<open>text.split('\n')\<close>: the empty string gives one empty piece\<close>
  "split_lines s = split_from [] s"

definition endsWith :: "jsstring \<Rightarrow> code_unit \<Rightarrow> bool" where
  "endsWith s c = (case rev s of [] \<Rightarrow> False | d # _ \<Rightarrow> d = c)"

section \<open>The regular expressions of the extractor\<close>

text \<open>
  The three expressions are anchored at both ends and are sequences of character classes,
  each taken once, or greedily one or more times (\<open>+\<close>), or greedily zero or more times
  (\<open>*\<close>); one class is a capture group. The matcher is the backtracking one of
  ECMAScript: a greedy quantifier takes as many code units as it can and gives them back
  one at a time while the rest of the expression fails.
\<close>

datatype quant = One | Star | Plus

record atom =
  cls :: "code_unit \<Rightarrow> bool"
  quant :: quant
  captured :: bool

type_synonym cont = "jsstring \<Rightarrow> jsstring list option"

fun rx_greedy :: "(code_unit \<Rightarrow> bool) \<Rightarrow> (jsstring \<Rightarrow> cont) \<Rightarrow> jsstring \<Rightarrow> cont" where
  "rx_greedy p k acc [] = k acc []"
| "rx_greedy p k acc (c # cs) =
     (if p c
      then (case rx_greedy p k (acc @ [c]) cs of
              Some r \<Rightarrow> Some r
            | None \<Rightarrow> k acc (c # cs))
      else k acc (c # cs))"

definition rx_capture :: "bool \<Rightarrow> cont \<Rightarrow> jsstring \<Rightarrow> cont" where
  \<comment> \<open>go on with the rest of the expression, recording the text a group matched\<close>
  "rx_capture cap k m rest = map_option (\<lambda>gs. if cap then m # gs else gs) (k rest)"

definition rx_atom :: "atom \<Rightarrow> cont \<Rightarrow> cont" where
  "rx_atom a k s =
     (case quant a of
        One \<Rightarrow> (case s of
                  [] \<Rightarrow> None
                | c # cs \<Rightarrow> if cls a c then rx_capture (captured a) k [c] cs else None)
      | Star \<Rightarrow> rx_greedy (cls a) (rx_capture (captured a) k) [] s
      | Plus \<Rightarrow> (case s of
                  [] \<Rightarrow> None
                | c # cs \<Rightarrow> if cls a c then rx_greedy (cls a) (rx_capture (captured a) k) [c] cs
                           else None))"

definition rx_end :: cont where
  \<comment> \<open>\<open>$\<close> without the \<open>m\<close> flag: the end of the input\<close>
  "rx_end s = (if s = [] then Some [] else None)"

definition js_match :: "atom list \<Rightarrow> jsstring \<Rightarrow> jsstring list option" where
  \<comment> \<open>\<open>line.match(/^...$/)\<close>: \<open>None\<close> is \<open>null\<close>; the array holds the whole match
      (the whole line, the expression being anchored at both ends), then the groups\<close>
  "js_match re s = map_option (\<lambda>gs. s # gs) (foldr rx_atom re rx_end s)"

definition numbered_re :: "atom list" where
  \<comment> \<open>\<open>/^\d+\.\s+(.+)$/\<close>\<close>
  "numbered_re =
     [\<lparr>cls = is_digit, quant = Plus, captured = False\<rparr>,
      \<lparr>cls = is_dot, quant = One, captured = False\<rparr>,
      \<lparr>cls = is_space, quant = Plus, captured = False\<rparr>,
      \<lparr>cls = is_any, quant = Plus, captured = True\<rparr>]"

definition bullet_re :: "atom list" where
  \<comment> \<open>\<open>/^[\<bullet>\-*]\s+(.+)$/\<close>\<close>
  "bullet_re =
     [\<lparr>cls = is_bullet, quant = One, captured = False\<rparr>,
      \<lparr>cls = is_space, quant = Plus, captured = False\<rparr>,
      \<lparr>cls = is_any, quant = Plus, captured = True\<rparr>]"

definition dash_re :: "atom list" where
  \<comment> \<open>\<open>/^-\s*(.+)$/\<close>\<close>
  "dash_re =
     [\<lparr>cls = is_hyphen, quant = One, captured = False\<rparr>,
      \<lparr>cls = is_space, quant = Star, captured = False\<rparr>,
      \<lparr>cls = is_any, quant = Plus, captured = True\<rparr>]"

section \<open>extractTasksFromText\<close>

datatype js_error = TypeError

datatype js_value =
    JSUndefined
  | JSNull
  | JSBoolean bool
  | JSString jsstring
  | JSOther bool
    \<comment> \<open>any other value (number, object, function, ...), with its truthiness\<close>

fun truthy :: "js_value \<Rightarrow> bool" where
  "truthy JSUndefined = False"
| "truthy JSNull = False"
| "truthy (JSBoolean b) = b"
| "truthy (JSString s) = (s \<noteq> [])"
| "truthy (JSOther t) = t"

fun is_string :: "js_value \<Rightarrow> bool" where
  \<comment> \<open>\<open>typeof v === 'string'\<close>\<close>
  "is_string (JSString s) = True"
| "is_string v = False"

definition group1 :: "jsstring list \<Rightarrow> js_error + jsstring" where
  \<comment> \<open>\<open>m[1].trim()\<close>: a \<open>TypeError\<close> where \<open>m[1]\<close> is \<open>undefined\<close>\<close>
  "group1 m = (case m of _ # g # _ \<Rightarrow> Inr (trim g) | _ \<Rightarrow> Inl TypeError)"

definition line_task :: "jsstring \<Rightarrow> js_error + jsstring option" where
  \<comment> \<open>the body of the loop: the task the line pushes, if it pushes one\<close>
  "line_task line =
     (case js_match numbered_re line of
        Some numberedMatch \<Rightarrow> map_sum id Some (group1 numberedMatch)
      | None \<Rightarrow>
     (case js_match bullet_re line of
        Some bulletMatch \<Rightarrow> map_sum id Some (group1 bulletMatch)
      | None \<Rightarrow>
     (case js_match dash_re line of
        Some dashMatch \<Rightarrow> map_sum id Some (group1 dashMatch)
      | None \<Rightarrow>
     (if length line > 3 \<and> \<not> endsWith line COLON then Inr (Some line) else Inr None))))"

fun extract_loop ::
  "(jsstring \<Rightarrow> js_error + jsstring option) \<Rightarrow> jsstring list \<Rightarrow> jsstring list
    \<Rightarrow> js_error + jsstring list" where
  "extract_loop body tasks [] = Inr tasks"
| "extract_loop body tasks (line # lines) =
     (case body line of
        Inl e \<Rightarrow> Inl e
      | Inr None \<Rightarrow> extract_loop body tasks lines
      | Inr (Some t) \<Rightarrow> extract_loop body (tasks @ [t]) lines)"

fun indexOf_from :: "nat \<Rightarrow> 'a list \<Rightarrow> 'a \<Rightarrow> int" where
  "indexOf_from i [] x = - 1"
| "indexOf_from i (y # ys) x = (if y = x then int i else indexOf_from (Suc i) ys x)"

definition indexOf :: "'a list \<Rightarrow> 'a \<Rightarrow> int" where
  \<comment> \<open>\<open>Array.prototype.indexOf\<close>: the first index holding the value, or -1\<close>
  "indexOf xs x = indexOf_from 0 xs x"

definition keep_first :: "jsstring list \<Rightarrow> jsstring list" where
  \<comment> \<open>\<open>tasks.filter((task, index, self) => task.length > 0 && self.indexOf(task) === index)\<close>\<close>
  "keep_first tasks =
     map fst (filter (\<lambda>(task, index). length task > 0 \<and> indexOf tasks task = int index)
                (zip tasks [0 ..< length tasks]))"

definition text_lines :: "jsstring \<Rightarrow> jsstring list" where
  \<comment> \<open>\<open>text.split('\n').map(line => line.trim()).filter(line => line)\<close>\<close>
  "text_lines s = filter (\<lambda>line. line \<noteq> []) (map trim (split_lines s))"

definition extract_with ::
  "(jsstring \<Rightarrow> js_error + jsstring option) \<Rightarrow> js_value \<Rightarrow> js_error + jsstring list" where
  \<comment> \<open>the function, with the body of its loop as a parameter; calling \<open>split\<close> on a
      value that is not a string would be a \<open>TypeError\<close>\<close>
  "extract_with body text =
     (if \<not> truthy text \<or> \<not> is_string text then Inr []
      else (case text of
              JSString s \<Rightarrow> map_sum id keep_first (extract_loop body [] (text_lines s))
            | _ \<Rightarrow> Inl TypeError))"

definition extractTasksFromText :: "js_value \<Rightarrow> js_error + jsstring list" where
  "extractTasksFromText text = extract_with line_task text"

definition line_task_without_rule3 :: "jsstring \<Rightarrow> js_error + jsstring option" where
  \<comment> \<open>the body of the loop with the third rule (the leading dash) removed\<close>
  "line_task_without_rule3 line =
     (case js_match numbered_re line of
        Some numberedMatch \<Rightarrow> map_sum id Some (group1 numberedMatch)
      | None \<Rightarrow>
     (case js_match bullet_re line of
        Some bulletMatch \<Rightarrow> map_sum id Some (group1 bulletMatch)
      | None \<Rightarrow>
     (if length line > 3 \<and> \<not> endsWith line COLON then Inr (Some line) else Inr None)))"

definition extractTasksFromText_without_rule3 :: "js_value \<Rightarrow> js_error + jsstring list" where
  "extractTasksFromText_without_rule3 text = extract_with line_task_without_rule3 text"

definition hyphen_glued :: "jsstring \<Rightarrow> bool" where
  \<comment> \<open>the line starts with a hyphen that a code unit other than white space follows\<close>
  "hyphen_glued line = (case line of c # d # _ \<Rightarrow> c = HYPHEN \<and> \<not> is_space d | _ \<Rightarrow> False)"

text \<open>
  Two functions for the proofs: the strings the loop pushes, line by line, and the
  filter of the last statement as a recursion that carries the strings already met.
\<close>

fun first_occurrences :: "jsstring set \<Rightarrow> jsstring list \<Rightarrow> jsstring list" where
  "first_occurrences seen [] = []"
| "first_occurrences seen (x # xs) =
     (if x \<noteq> [] \<and> x \<notin> seen then [x] else []) @ first_occurrences (insert x seen) xs"

definition pushed :: "(jsstring \<Rightarrow> js_error + jsstring option) \<Rightarrow> jsstring list \<Rightarrow> jsstring list" where
  "pushed body lines = concat (map (\<lambda>line. case body line of Inr (Some t) \<Rightarrow> [t] | _ \<Rightarrow> []) lines)"

section \<open>createGitHubIssues\<close>

record issue_params =
  p_owner :: jsstring
  p_repo :: jsstring
  p_title :: jsstring
  p_body :: jsstring
  p_labels :: "jsstring list"
  p_assignees :: "jsstring list option"
    \<comment> \<open>\<open>None\<close>: the property is not set\<close>

record issue_options =
  opt_labels :: "jsstring list option"
    \<comment> \<open>\<open>Some ls\<close>: an array of labels; \<open>None\<close>: a value that is not an array\<close>
  opt_assignee :: "jsstring option"
    \<comment> \<open>\<open>None\<close>: \<open>null\<close>, the default\<close>

record response_data =
  r_number :: int
  r_title :: jsstring
  r_html_url :: jsstring

text \<open>
  An entry of \<open>createdIssues\<close>: an object literal with the properties \<open>number\<close>,
  \<open>title\<close>, \<open>url\<close> or with the properties \<open>task\<close>, \<open>error\<close>. A property the
  literal does not set is \<open>None\<close>.
\<close>

record created_issue =
  ci_number :: "int option"
  ci_title :: "jsstring option"
  ci_url :: "jsstring option"
  ci_task :: "jsstring option"
  ci_error :: "jsstring option"

text \<open>
  \<open>octokit.issues.create\<close>: a call changes the state of the world (GitHub, the
  network) and either resolves with a response or rejects with an error, of which the
  program reads the message only.
\<close>

type_synonym 'w octokit = "issue_params \<Rightarrow> 'w \<Rightarrow> (jsstring + response_data) \<times> 'w"

definition issueParams :: "jsstring \<Rightarrow> jsstring \<Rightarrow> issue_options \<Rightarrow> jsstring \<Rightarrow> issue_params" where
  "issueParams owner repo options task =
     \<lparr>p_owner = owner,
      p_repo = repo,
      p_title = take 100 task,
      p_body = (if length task > 100 then task else js ''Task: '' @ task),
      p_labels = (case opt_labels options of Some ls \<Rightarrow> ls | None \<Rightarrow> []),
      p_assignees = (case opt_assignee options of
                       None \<Rightarrow> None
                     | Some a \<Rightarrow> if a \<noteq> [] then Some [a] else None)\<rparr>"

definition success_record :: "response_data \<Rightarrow> created_issue" where
  \<comment> \<open>the object pushed after the call resolved\<close>
  "success_record response =
     \<lparr>ci_number = Some (r_number response),
      ci_title = Some (r_title response),
      ci_url = Some (r_html_url response),
      ci_task = None,
      ci_error = None\<rparr>"

definition failure_record :: "jsstring \<Rightarrow> jsstring \<Rightarrow> created_issue" where
  \<comment> \<open>the object pushed in the \<open>catch\<close> block\<close>
  "failure_record task message =
     \<lparr>ci_number = None, ci_title = None, ci_url = None,
      ci_task = Some task, ci_error = Some message\<rparr>"

fun issues_loop ::
  "'w octokit \<Rightarrow> (jsstring \<Rightarrow> issue_params) \<Rightarrow> created_issue list \<Rightarrow> jsstring list \<Rightarrow> 'w
    \<Rightarrow> created_issue list \<times> 'w" where
  "issues_loop create params createdIssues [] w = (createdIssues, w)"
| "issues_loop create params createdIssues (task # tasks) w =
     (case create (params task) w of
        (Inr response, w') \<Rightarrow>
          issues_loop create params (createdIssues @ [success_record response]) tasks w'
      | (Inl message, w') \<Rightarrow>
          issues_loop create params (createdIssues @ [failure_record task message]) tasks w')"

definition createGitHubIssues ::
  "'w octokit \<Rightarrow> jsstring \<Rightarrow> jsstring \<Rightarrow> jsstring list \<Rightarrow> issue_options \<Rightarrow> 'w
    \<Rightarrow> created_issue list \<times> 'w" where
  "createGitHubIssues octokit owner repo tasks options w =
     issues_loop octokit (issueParams owner repo options) [] tasks w"


definition is_failure :: "created_issue \<Rightarrow> bool" where
  \<comment> \<open>the entry has an \<open>error\<close> property\<close>
  "is_failure r = (ci_error r \<noteq> None)"

definition is_success :: "created_issue \<Rightarrow> bool" where
  \<comment> \<open>the entry has the properties \<open>number\<close>, \<open>title\<close> and \<open>url\<close>, and no \<open>error\<close>\<close>
  "is_success r =
     (ci_number r \<noteq> None \<and> ci_title r \<noteq> None \<and> ci_url r \<noteq> None \<and> ci_error r = None)"

definition logging :: "'w octokit \<Rightarrow> ('w \<times> issue_params list) octokit" where
  \<comment> \<open>a client that also keeps the parameters of every call it receives, in order\<close>
  "logging create p = (\<lambda>(w, calls). case create p w of (r, w') \<Rightarrow> (r, (w', calls @ [p])))"

definition fails_at :: "nat \<Rightarrow> nat octokit" where
  \<comment> \<open>a client that counts its calls and rejects call number \<open>k\<close> only\<close>
  "fails_at k p n =
     (if n = k then Inl (js ''Validation Failed'')
      else Inr \<lparr>r_number = int n + 1, r_title = p_title p, r_html_url = js ''https://github.com/o/r/issues''\<rparr>,
      Suc n)"

definition result_of :: "jsstring \<Rightarrow> jsstring + response_data \<Rightarrow> created_issue" where
  \<comment> \<open>the entry pushed for a task, by what the client answered: the two pushes of the loop\<close>
  "result_of task out = (case out of Inl m \<Rightarrow> failure_record task m | Inr r \<Rightarrow> success_record r)"

text \<open>
  The client called once for each record of parameters, in order, each call in the world
  the call before it has left: the answers and the last world. It does not depend on
  \<open>createGitHubIssues\<close>, whose calls the theorems compare with it.
\<close>

fun client_run :: "'w octokit \<Rightarrow> issue_params list \<Rightarrow> 'w \<Rightarrow> (jsstring + response_data) list \<times> 'w" where
  "client_run create [] w = ([], w)"
| "client_run create (p # ps) w =
     (case create p w of
        (answer, w') \<Rightarrow> (case client_run create ps w' of (answers, w'') \<Rightarrow> (answer # answers, w'')))"

section \<open>Properties of createGitHubIssues\<close>

lemma issues_loop_acc:
  "issues_loop create params acc tasks w =
     (acc @ fst (issues_loop create params [] tasks w), snd (issues_loop create params [] tasks w))"
proof (induction tasks arbitrary: acc w)
  case Nil
  then show ?case by simp
next
  case (Cons t ts)
  have a: "\<And>x w'. issues_loop create params (acc @ [x]) ts w' =
     (acc @ [x] @ fst (issues_loop create params [] ts w'), snd (issues_loop create params [] ts w'))"
    using Cons.IH[of "acc @ [x]" for x] by simp
  have b: "\<And>x w'. issues_loop create params [x] ts w' =
     ([x] @ fst (issues_loop create params [] ts w'), snd (issues_loop create params [] ts w'))"
    using Cons.IH[of "[x]" for x] by simp
  show ?case
    by (simp add: a b split: prod.splits sum.splits)
qed


lemma issues_loop_Cons:
  "issues_loop create params [] (t # tasks) w =
     (result_of t (fst (create (params t) w)) # fst (issues_loop create params [] tasks (snd (create (params t) w))),
      snd (issues_loop create params [] tasks (snd (create (params t) w))))"
  by (simp add: result_of_def issues_loop_acc[of _ _ "[x]" for x] split: prod.splits sum.splits)


lemma issues_loop_length: "length (fst (issues_loop create params [] tasks w)) = length tasks"
  by (induction tasks arbitrary: w) (simp_all add: issues_loop_Cons del: issues_loop.simps(2))





lemma is_failure_result_of: "is_failure (result_of t out) = isl out"
  by (cases out) (simp_all add: result_of_def is_failure_def failure_record_def success_record_def)

lemma is_success_result_of: "is_success (result_of t out) = (\<not> isl out)"
  by (cases out) (simp_all add: result_of_def is_success_def failure_record_def success_record_def)

lemma ci_task_result_of: "isl out \<Longrightarrow> ci_task (result_of t out) = Some t"
  by (cases out) (simp_all add: result_of_def failure_record_def)

lemma logging_call:
  "logging create p (w, calls) = (fst (create p w), snd (create p w), calls @ [p])"
  by (simp add: logging_def split: prod.splits)

lemma issues_loop_logging:
  "snd (snd (issues_loop (logging create) params acc tasks (w, calls))) = calls @ map params tasks"
proof (induction tasks arbitrary: acc w calls)
  case Nil
  show ?case by simp
next
  case (Cons t ts)
  show ?case
    by (simp add: logging_call Cons.IH split: sum.splits)
qed

lemma client_run_Cons:
  "client_run create (p # ps) w =
     (fst (create p w) # fst (client_run create ps (snd (create p w))),
      snd (client_run create ps (snd (create p w))))"
  by (simp split: prod.splits)

lemma client_run_length: "length (fst (client_run create ps w)) = length ps"
  by (induction ps arbitrary: w) (simp_all add: client_run_Cons del: client_run.simps(2))

lemma issues_loop_client_run:
  "issues_loop create params [] tasks w =
     (map (\<lambda>(task, answer). result_of task answer)
        (zip tasks (fst (client_run create (map params tasks) w))),
      snd (client_run create (map params tasks) w))"
proof (induction tasks arbitrary: w)
  case Nil
  show ?case by simp
next
  case (Cons t ts)
  show ?case
    unfolding issues_loop_Cons Cons.IH list.map client_run_Cons
    by simp
qed

lemma createGitHubIssues_client_run_nth:
  assumes "i < length tasks"
  shows "fst (createGitHubIssues octokit owner repo tasks opts w) ! i =
           result_of (tasks ! i)
             (fst (client_run octokit (map (issueParams owner repo opts) tasks) w) ! i)"
  using assms
  by (simp add: createGitHubIssues_def issues_loop_client_run client_run_length)

text \<open>
  C1. \<open>createGitHubIssues\<close> returns one entry per task, in the order of the tasks. It
  calls the client once for every task, in order, whatever the client answers: the client
  receives the parameters of every task, and the world is left as these calls leave it.
  Entry \<open>i\<close> is the record of the answer to the call for task \<open>i\<close>. When the client
  rejects the call for exactly one task \<open>k\<close> of \<open>N\<close>, the result has length \<open>N\<close>, one
  failure record, at index \<open>k\<close> and holding task \<open>k\<close>, and \<open>N - 1\<close> success records:
  every other task, the later ones included, has the record of the issue created for it.
\<close>

theorem createGitHubIssues_one_result_per_task:
  "length (fst (createGitHubIssues octokit owner repo tasks opts w)) = length tasks
   \<and> snd (snd (createGitHubIssues (logging octokit) owner repo tasks opts (w, [])))
       = map (issueParams owner repo opts) tasks
   \<and> snd (createGitHubIssues octokit owner repo tasks opts w)
       = snd (client_run octokit (map (issueParams owner repo opts) tasks) w)
   \<and> (\<forall>i<length tasks.
         fst (createGitHubIssues octokit owner repo tasks opts w) ! i =
           (case fst (client_run octokit (map (issueParams owner repo opts) tasks) w) ! i of
              Inl message \<Rightarrow> failure_record (tasks ! i) message
            | Inr response \<Rightarrow> success_record response))
   \<and> (\<forall>k<length tasks.
         (\<forall>i<length tasks.
            isl (fst (client_run octokit (map (issueParams owner repo opts) tasks) w) ! i) = (i = k)) \<longrightarrow>
           length (filter is_failure (fst (createGitHubIssues octokit owner repo tasks opts w))) = 1
           \<and> length (filter is_success (fst (createGitHubIssues octokit owner repo tasks opts w)))
               = length tasks - 1
           \<and> is_failure (fst (createGitHubIssues octokit owner repo tasks opts w) ! k)
           \<and> ci_task (fst (createGitHubIssues octokit owner repo tasks opts w) ! k) = Some (tasks ! k)
           \<and> (\<forall>j<length tasks. j \<noteq> k \<longrightarrow>
                 fst (createGitHubIssues octokit owner repo tasks opts w) ! j =
                   success_record
                     (projr (fst (client_run octokit (map (issueParams owner repo opts) tasks) w) ! j))))"
  (is "?len \<and> ?calls \<and> ?world \<and> ?each \<and> ?one")
proof -
  let ?rs = "fst (createGitHubIssues octokit owner repo tasks opts w)"
  let ?out = "\<lambda>i. fst (client_run octokit (map (issueParams owner repo opts) tasks) w) ! i"
  have len: ?len
    by (simp add: createGitHubIssues_def issues_loop_length)
  have calls: ?calls
    by (simp add: createGitHubIssues_def issues_loop_logging)
  have world: ?world
    by (simp add: createGitHubIssues_def issues_loop_client_run)
  have nth: "?rs ! i = result_of (tasks ! i) (?out i)" if "i < length tasks" for i
    using that by (rule createGitHubIssues_client_run_nth)
  have each: ?each
    using nth by (simp add: result_of_def)
  have one: ?one
  proof (intro allI impI)
    fix k
    assume k: "k < length tasks"
      and only: "\<forall>i<length tasks. isl (?out i) = (i = k)"
    have fail: "is_failure (?rs ! i) = (i = k)" if "i < length tasks" for i
      using that only by (simp add: nth is_failure_result_of)
    have succ: "is_success (?rs ! i) = (i \<noteq> k)" if "i < length tasks" for i
      using that only by (simp add: nth is_success_result_of)
    have "{i. i < length ?rs \<and> is_failure (?rs ! i)} = {k}"
      using fail k len by auto
    then have c1: "length (filter is_failure ?rs) = 1"
      by (simp add: length_filter_conv_card)
    have "{i. i < length ?rs \<and> is_success (?rs ! i)} = {..<length tasks} - {k}"
      using succ len by auto
    then have c2: "length (filter is_success ?rs) = length tasks - 1"
      using k by (simp add: length_filter_conv_card)
    have c3: "ci_task (?rs ! k) = Some (tasks ! k)"
      using k only by (simp add: nth ci_task_result_of)
    have c4: "?rs ! j = success_record (projr (?out j))" if "j < length tasks" "j \<noteq> k" for j
    proof -
      from that only have "\<not> isl (?out j)" by simp
      then obtain r where "?out j = Inr r" by (cases "?out j") auto
      then show ?thesis using that(1) by (simp add: nth result_of_def)
    qed
    show "length (filter is_failure ?rs) = 1
           \<and> length (filter is_success ?rs) = length tasks - 1
           \<and> is_failure (?rs ! k)
           \<and> ci_task (?rs ! k) = Some (tasks ! k)
           \<and> (\<forall>j<length tasks. j \<noteq> k \<longrightarrow> ?rs ! j = success_record (projr (?out j)))"
      using c1 c2 c3 c4 fail k by simp
  qed
  show ?thesis using len calls world each one by blast
qed


theorem createGitHubIssues_one_result_per_task_witness:
  "isl (fst (client_run (fails_at 1)
          (map (issueParams (js ''o'') (js ''r'') \<lparr>opt_labels = None, opt_assignee = None\<rparr>)
             [js ''a'', js ''b'', js ''c'']) 0) ! 1)
   \<and> \<not> isl (fst (client_run (fails_at 1)
          (map (issueParams (js ''o'') (js ''r'') \<lparr>opt_labels = None, opt_assignee = None\<rparr>)
             [js ''a'', js ''b'', js ''c'']) 0) ! 0)
   \<and> \<not> isl (fst (client_run (fails_at 1)
          (map (issueParams (js ''o'') (js ''r'') \<lparr>opt_labels = None, opt_assignee = None\<rparr>)
             [js ''a'', js ''b'', js ''c'']) 0) ! 2)
   \<and> length (fst (createGitHubIssues (fails_at 1) (js ''o'') (js ''r'') [js ''a'', js ''b'', js ''c'']
          \<lparr>opt_labels = None, opt_assignee = None\<rparr> 0)) = 3
   \<and> snd (createGitHubIssues (fails_at 1) (js ''o'') (js ''r'') [js ''a'', js ''b'', js ''c'']
          \<lparr>opt_labels = None, opt_assignee = None\<rparr> 0) = 3
   \<and> map p_title (snd (snd (createGitHubIssues (logging (fails_at 1)) (js ''o'') (js ''r'')
          [js ''a'', js ''b'', js ''c''] \<lparr>opt_labels = None, opt_assignee = None\<rparr> (0, []))))
       = [js ''a'', js ''b'', js ''c'']
   \<and> length (filter is_failure (fst (createGitHubIssues (fails_at 1) (js ''o'') (js ''r'')
          [js ''a'', js ''b'', js ''c''] \<lparr>opt_labels = None, opt_assignee = None\<rparr> 0))) = 1
   \<and> length (filter is_success (fst (createGitHubIssues (fails_at 1) (js ''o'') (js ''r'')
          [js ''a'', js ''b'', js ''c''] \<lparr>opt_labels = None, opt_assignee = None\<rparr> 0))) = 2
   \<and> ci_task (fst (createGitHubIssues (fails_at 1) (js ''o'') (js ''r'')
          [js ''a'', js ''b'', js ''c''] \<lparr>opt_labels = None, opt_assignee = None\<rparr> 0) ! 1) = Some (js ''b'')
   \<and> fst (createGitHubIssues (fails_at 1) (js ''o'') (js ''r'')
          [js ''a'', js ''b'', js ''c''] \<lparr>opt_labels = None, opt_assignee = None\<rparr> 0) ! 2
       = success_record \<lparr>r_number = 3, r_title = js ''c'', r_html_url = js ''https://github.com/o/r/issues''\<rparr>"
proof -
  let ?tasks = "[js ''a'', js ''b'', js ''c'']"
  let ?opts = "\<lparr>opt_labels = None, opt_assignee = None\<rparr>"
  let ?ps = "map (issueParams (js ''o'') (js ''r'') ?opts) ?tasks"
  let ?out = "\<lambda>i. fst (client_run (fails_at 1) ?ps 0) ! i"
  let ?rs = "fst (createGitHubIssues (fails_at 1) (js ''o'') (js ''r'') ?tasks ?opts 0)"
  have run: "client_run (fails_at 1) ?ps 0 =
      ([Inr \<lparr>r_number = 1, r_title = js ''a'', r_html_url = js ''https://github.com/o/r/issues''\<rparr>,
        Inl (js ''Validation Failed''),
        Inr \<lparr>r_number = 3, r_title = js ''c'', r_html_url = js ''https://github.com/o/r/issues''\<rparr>], 3)"
    by (simp add: fails_at_def issueParams_def js_def)
  have o0: "\<not> isl (?out 0)" and o1: "isl (?out 1)" and o2: "\<not> isl (?out 2)"
    and p2: "projr (?out 2) = \<lparr>r_number = 3, r_title = js ''c'', r_html_url = js ''https://github.com/o/r/issues''\<rparr>"
    unfolding run by simp_all
  have only: "\<forall>i<length ?tasks. isl (?out i) = (i = 1)"
    using o0 o1 o2 by (simp add: All_less_Suc numeral_2_eq_2)
  have k: "(1::nat) < length ?tasks" by simp
  note t = createGitHubIssues_one_result_per_task
         [of "fails_at 1" "js ''o''" "js ''r''" ?tasks ?opts 0]
  from t have len: "length ?rs = length ?tasks" by blast
  from t have world: "snd (createGitHubIssues (fails_at 1) (js ''o'') (js ''r'') ?tasks ?opts 0)
      = snd (client_run (fails_at 1) ?ps 0)" by blast
  from t have calls: "snd (snd (createGitHubIssues (logging (fails_at 1)) (js ''o'') (js ''r'') ?tasks ?opts (0, [])))
      = ?ps" by blast
  from t k only
  have one: "length (filter is_failure ?rs) = 1
           \<and> length (filter is_success ?rs) = length ?tasks - 1
           \<and> is_failure (?rs ! 1)
           \<and> ci_task (?rs ! 1) = Some (?tasks ! 1)
           \<and> (\<forall>j<length ?tasks. j \<noteq> 1 \<longrightarrow> ?rs ! j = success_record (projr (?out j)))"
    by blast
  then have last: "?rs ! 2 = success_record (projr (?out 2))" by simp
  have titles: "map p_title ?ps = ?tasks" by (simp add: issueParams_def js_def)
  show ?thesis
    using o0 o1 o2 len one last world calls titles unfolding p2 run by simp
qed

text \<open>
  C2. For every task \<open>t\<close>, the title of the issue is the first 100 code units of \<open>t\<close>,
  so no title is longer than 100; the body is \<open>t\<close> itself when \<open>t\<close> is longer than
  100, and \<open>Task: \<close> followed by \<open>t\<close> otherwise. These are the parameters the client
  receives: whatever it answers, the calls it gets are those of the tasks, in order.
\<close>

theorem createGitHubIssues_title_and_body:
  "p_title (issueParams owner repo opts t) = take 100 t
   \<and> length (p_title (issueParams owner repo opts t)) \<le> 100
   \<and> p_body (issueParams owner repo opts t) = (if length t > 100 then t else js ''Task: '' @ t)
   \<and> snd (snd (createGitHubIssues (logging octokit) owner repo tasks opts (w, [])))
       = map (issueParams owner repo opts) tasks"
  by (simp add: issueParams_def createGitHubIssues_def issues_loop_logging)

theorem createGitHubIssues_title_and_body_witness:
  "length (p_title (issueParams (js ''o'') (js ''r'') \<lparr>opt_labels = None, opt_assignee = None\<rparr>
             (replicate 120 0x78))) = 100
   \<and> p_body (issueParams (js ''o'') (js ''r'') \<lparr>opt_labels = None, opt_assignee = None\<rparr>
             (replicate 120 0x78)) = replicate 120 0x78
   \<and> p_title (issueParams (js ''o'') (js ''r'') \<lparr>opt_labels = None, opt_assignee = None\<rparr>
             (js ''Short'')) = js ''Short''
   \<and> p_body (issueParams (js ''o'') (js ''r'') \<lparr>opt_labels = None, opt_assignee = None\<rparr>
             (js ''Short'')) = js ''Task: Short''"
  using createGitHubIssues_title_and_body
          [of "js ''o''" "js ''r''" "\<lparr>opt_labels = None, opt_assignee = None\<rparr>" "replicate 120 0x78"
              "fails_at 0" "[]" 0]
        createGitHubIssues_title_and_body
          [of "js ''o''" "js ''r''" "\<lparr>opt_labels = None, opt_assignee = None\<rparr>" "js ''Short''"
              "fails_at 0" "[]" 0]
  by (simp add: js_def)




section \<open>Properties of extractTasksFromText\<close>

subsection \<open>The filter keeps first occurrences\<close>

lemma length_takeWhile_less:
  "x \<in> set xs \<Longrightarrow> \<not> P x \<Longrightarrow> length (takeWhile P xs) < length xs"
  by (induction xs) auto

lemma indexOf_from_takeWhile:
  "indexOf_from i xs x =
     (if x \<in> set xs then int (i + length (takeWhile (\<lambda>y. y \<noteq> x) xs)) else - 1)"
  by (induction xs arbitrary: i) auto

lemma indexOf_first:
  "indexOf (pre @ x # xs) x = int (length pre) \<longleftrightarrow> x \<notin> set pre"
proof (cases "x \<in> set pre")
  case True
  then have "length (takeWhile (\<lambda>y. y \<noteq> x) pre) < length pre"
    by (rule length_takeWhile_less[of x]) simp_all
  moreover have "takeWhile (\<lambda>y. y \<noteq> x) (pre @ x # xs) = takeWhile (\<lambda>y. y \<noteq> x) pre"
    by (rule takeWhile_append1[of x]) (use True in simp_all)
  ultimately show ?thesis
    using True by (simp add: indexOf_def indexOf_from_takeWhile)
next
  case False
  then have "takeWhile (\<lambda>y. y \<noteq> x) (pre @ x # xs) = pre"
    by (subst takeWhile_append2) auto
  then show ?thesis
    using False by (simp add: indexOf_def indexOf_from_takeWhile)
qed

lemma keep_first_from:
  "n = length pre \<Longrightarrow>
   map fst (filter (\<lambda>(task, index). length task > 0 \<and> indexOf (pre @ suf) task = int index)
              (zip suf [n ..< n + length suf]))
     = first_occurrences (set pre) suf"
proof (induction suf arbitrary: pre n)
  case Nil
  show ?case by simp
next
  case (Cons x xs)
  let ?P = "\<lambda>(task, index). length task > 0 \<and> indexOf (pre @ x # xs) task = int index"
  have upt: "[n ..< n + length (x # xs)] = n # [Suc n ..< Suc n + length xs]"
    by (simp add: upt_conv_Cons del: upt_Suc)
  have ih: "map fst (filter ?P (zip xs [Suc n ..< Suc n + length xs]))
              = first_occurrences (insert x (set pre)) xs"
    using Cons.IH[of "Suc n" "pre @ [x]"] Cons.prems by simp
  have hd: "?P (x, n) \<longleftrightarrow> x \<noteq> [] \<and> x \<notin> set pre"
    using indexOf_first[of pre x xs] Cons.prems by simp
  have "map fst (filter ?P (zip (x # xs) [n ..< n + length (x # xs)]))
          = (if ?P (x, n) then [x] else []) @ map fst (filter ?P (zip xs [Suc n ..< Suc n + length xs]))"
    unfolding upt by simp
  also have "\<dots> = first_occurrences (set pre) (x # xs)"
    unfolding ih hd by simp
  finally show ?case .
qed

lemma keep_first_first_occurrences: "keep_first tasks = first_occurrences {} tasks"
  using keep_first_from[of 0 "[]" tasks] by (simp add: keep_first_def)

lemma set_first_occurrences: "set (first_occurrences seen xs) = set xs - seen - {[]}"
  by (induction xs arbitrary: seen) auto

lemma distinct_first_occurrences: "distinct (first_occurrences seen xs)"
  by (induction xs arbitrary: seen) (auto simp: set_first_occurrences)

lemma first_occurrences_order:
  "sorted_wrt (<)
     (map (\<lambda>t. length (takeWhile (\<lambda>line. body line \<noteq> Inr (Some t)) lines))
        (first_occurrences seen (pushed body lines)))"
proof (induction lines arbitrary: seen)
  case Nil
  show ?case by (simp add: pushed_def)
next
  case (Cons l ls)
  let ?fp = "\<lambda>ls t. length (takeWhile (\<lambda>line. body line \<noteq> Inr (Some t)) ls)"
  show ?case
  proof (cases "\<exists>t. body l = Inr (Some t)")
    case True
    then obtain t where t: "body l = Inr (Some t)" by auto
    let ?rest = "first_occurrences (insert t seen) (pushed body ls)"
    have p: "pushed body (l # ls) = t # pushed body ls"
      using t by (simp add: pushed_def)
    have other: "?fp (l # ls) x = Suc (?fp ls x)" if "x \<in> set ?rest" for x
    proof -
      from that have "x \<noteq> t" by (auto simp: set_first_occurrences)
      then show ?thesis using t by simp
    qed
    then have m: "map (?fp (l # ls)) ?rest = map (\<lambda>x. Suc (?fp ls x)) ?rest"
      by (intro map_cong) simp_all
    have s: "sorted_wrt (<) (map (\<lambda>x. Suc (?fp ls x)) ?rest)"
      using Cons.IH[of "insert t seen"] by (simp add: sorted_wrt_map)
    have z: "?fp (l # ls) t = 0" using t by simp
    show ?thesis
      unfolding p first_occurrences.simps map_append sorted_wrt_append m
      using s z by auto
  next
    case False
    then have p: "pushed body (l # ls) = pushed body ls"
      by (auto simp: pushed_def split: sum.splits option.splits)
    have "?fp (l # ls) x = Suc (?fp ls x)" for x
      using False by simp
    then have m: "?fp (l # ls) = (\<lambda>x. Suc (?fp ls x))" by blast
    show ?thesis
      unfolding p m using Cons.IH[of seen] by (simp add: sorted_wrt_map)
  qed
qed

lemma first_producer:
  fixes body :: "jsstring \<Rightarrow> js_error + jsstring option"
  assumes "line \<in> set lines" and "body line = Inr (Some t)"
  shows "length (takeWhile (\<lambda>line. body line \<noteq> Inr (Some t)) lines) < length lines
    \<and> body (lines ! length (takeWhile (\<lambda>line. body line \<noteq> Inr (Some t)) lines)) = Inr (Some t)
    \<and> (\<forall>a'<length (takeWhile (\<lambda>line. body line \<noteq> Inr (Some t)) lines).
          body (lines ! a') \<noteq> Inr (Some t))"
proof -
  let ?tw = "takeWhile (\<lambda>line. body line \<noteq> Inr (Some t)) lines"
  have lt: "length ?tw < length lines"
    using assms by (intro length_takeWhile_less[of line]) simp_all
  have here: "body (lines ! length ?tw) = Inr (Some t)"
    using nth_length_takeWhile[of "\<lambda>line. body line \<noteq> Inr (Some t)" lines] lt by simp
  have before: "body (lines ! a') \<noteq> Inr (Some t)" if "a' < length ?tw" for a'
  proof -
    from that have "?tw ! a' \<in> set ?tw" by (rule nth_mem)
    then have "body (?tw ! a') \<noteq> Inr (Some t)" by (rule set_takeWhileD[THEN conjunct2])
    then show ?thesis using that by (simp add: takeWhile_nth)
  qed
  show ?thesis using lt here before by blast
qed

subsection \<open>Trimming and matching\<close>

lemma trim_ends:
  assumes "trim s \<noteq> []"
  shows "\<not> is_space (hd (trim s))" and "\<not> is_space (last (trim s))"
proof -
  let ?y = "dropWhile is_space s"
  let ?z = "dropWhile is_space (rev ?y)"
  have z: "?z \<noteq> []" using assms by (simp add: trim_def)
  have y: "?y \<noteq> []"
  proof
    assume a: "?y = []"
    have "?z = []" unfolding a by simp
    with z show False by blast
  qed
  have "\<not> is_space (hd ?z)" using z by (rule hd_dropWhile)
  then show "\<not> is_space (last (trim s))"
    using z by (simp add: trim_def last_rev)
  have "\<not> is_space (hd ?y)" using y by (rule hd_dropWhile)
  moreover have "last ?z = last (rev ?y)"
  proof -
    have "rev ?y = takeWhile is_space (rev ?y) @ ?z" by simp
    then show ?thesis using z by (metis last_appendR)
  qed
  ultimately show "\<not> is_space (hd (trim s))"
    using z y by (simp add: trim_def hd_rev last_rev)
qed

lemma rx_greedy_Some:
  "rx_greedy p k acc s = Some r \<Longrightarrow> \<exists>m rest. k m rest = Some r"
  by (induction s arbitrary: acc) (auto split: if_splits option.splits)

lemma rx_atom_Some:
  assumes "rx_atom a k s = Some gs"
  shows "\<exists>m rest gs'. k rest = Some gs' \<and> gs = (if captured a then m # gs' else gs')"
proof -
  have cap: "\<exists>gs'. k rest = Some gs' \<and> gs = (if captured a then m # gs' else gs')"
    if "rx_capture (captured a) k m rest = Some gs" for m rest
    using that by (auto simp: rx_capture_def)
  show ?thesis
  proof (cases "quant a")
    case One
    with assms show ?thesis
      by (auto simp: rx_atom_def split: list.splits if_splits dest!: cap)
  next
    case Star
    with assms obtain m rest where "rx_capture (captured a) k m rest = Some gs"
      by (auto simp: rx_atom_def dest!: rx_greedy_Some)
    then show ?thesis using cap by blast
  next
    case Plus
    with assms obtain m rest where "rx_capture (captured a) k m rest = Some gs"
      by (auto simp: rx_atom_def split: list.splits if_splits dest!: rx_greedy_Some)
    then show ?thesis using cap by blast
  qed
qed

lemma rx_groups_length:
  "foldr rx_atom re rx_end s = Some gs \<Longrightarrow> length gs = length (filter captured re)"
proof (induction re arbitrary: s gs)
  case Nil
  then show ?case by (simp add: rx_end_def split: if_splits)
next
  case (Cons a re)
  from Cons.prems obtain m rest gs' where
    k: "foldr rx_atom re rx_end rest = Some gs'" and
    gs: "gs = (if captured a then m # gs' else gs')"
    using rx_atom_Some[of a "foldr rx_atom re rx_end" s gs] by auto
  from Cons.IH[OF k] gs show ?case by simp
qed

lemma js_match_one_group:
  assumes "js_match re s = Some m" and "length (filter captured re) = 1"
  shows "\<exists>g. m = [s, g]"
proof -
  from assms(1) obtain gs where gs: "foldr rx_atom re rx_end s = Some gs" and m: "m = s # gs"
    by (auto simp: js_match_def)
  from rx_groups_length[OF gs] assms(2) have "length gs = 1" by simp
  then obtain g where "gs = [g]" by (cases gs) auto
  with m show ?thesis by simp
qed

lemma group1_of_match:
  assumes "js_match re s = Some m" and "length (filter captured re) = 1"
  shows "\<exists>g. group1 m = Inr (trim g)"
  using js_match_one_group[OF assms] by (auto simp: group1_def)

lemma re_one_group:
  "length (filter captured numbered_re) = 1"
  "length (filter captured bullet_re) = 1"
  "length (filter captured dash_re) = 1"
  by (simp_all add: numbered_re_def bullet_re_def dash_re_def)

lemma line_task_cases:
  "line_task line = Inr None \<or> line_task line = Inr (Some line) \<or> (\<exists>g. line_task line = Inr (Some (trim g)))"
  unfolding line_task_def
  by (auto split: option.splits dest!: group1_of_match[OF _ re_one_group(1)]
        group1_of_match[OF _ re_one_group(2)] group1_of_match[OF _ re_one_group(3)])

lemma line_task_without_rule3_cases:
  "line_task_without_rule3 line = Inr None \<or> line_task_without_rule3 line = Inr (Some line)
   \<or> (\<exists>g. line_task_without_rule3 line = Inr (Some (trim g)))"
  unfolding line_task_without_rule3_def
  by (auto split: option.splits dest!: group1_of_match[OF _ re_one_group(1)]
        group1_of_match[OF _ re_one_group(2)])

lemma extract_loop_pushed:
  "(\<And>line. line \<in> set lines \<Longrightarrow> \<exists>r. body line = Inr r) \<Longrightarrow>
     extract_loop body tasks lines = Inr (tasks @ pushed body lines)"
proof (induction lines arbitrary: tasks)
  case Nil
  show ?case by (simp add: pushed_def)
next
  case (Cons l ls)
  from Cons.prems[of l] obtain r where r: "body l = Inr r" by auto
  have ih: "extract_loop body ts ls = Inr (ts @ pushed body ls)" for ts
    using Cons.IH[of ts] Cons.prems by simp
  show ?case
    using r by (cases r) (simp_all add: ih pushed_def)
qed

lemma text_lines_trimmed:
  assumes "line \<in> set (text_lines s)"
  shows "line \<noteq> []" and "\<exists>x. line = trim x"
  using assms by (auto simp: text_lines_def)

lemma text_lines_ends:
  assumes "line \<in> set (text_lines s)"
  shows "\<not> is_space (hd line)" and "\<not> is_space (last line)"
  using text_lines_trimmed[OF assms] trim_ends by auto

lemma extract_with_string:
  assumes "\<And>line. \<exists>r. body line = Inr r"
  shows "extract_with body (JSString s) = Inr (first_occurrences {} (pushed body (text_lines s)))"
proof (cases "s = []")
  case True
  then show ?thesis
    by (simp add: extract_with_def text_lines_def split_lines_def trim_def pushed_def)
next
  case False
  have "extract_loop body [] (text_lines s) = Inr ([] @ pushed body (text_lines s))"
    using assms by (intro extract_loop_pushed) simp
  then show ?thesis
    using False by (simp add: extract_with_def keep_first_first_occurrences)
qed

lemma extract_with_non_string: "\<not> is_string v \<Longrightarrow> extract_with body v = Inr []"
  by (simp add: extract_with_def)

lemma line_task_total: "\<exists>r. line_task line = Inr r"
  using line_task_cases[of line] by auto

lemma line_task_without_rule3_total: "\<exists>r. line_task_without_rule3 line = Inr r"
  using line_task_without_rule3_cases[of line] by auto

lemma extractTasksFromText_string:
  "extractTasksFromText (JSString s) = Inr (first_occurrences {} (pushed line_task (text_lines s)))"
  unfolding extractTasksFromText_def by (rule extract_with_string) (rule line_task_total)

lemma extractTasksFromText_cases:
  obtains "\<not> is_string text" "extractTasksFromText text = Inr []"
  | s where "text = JSString s"
      "extractTasksFromText text = Inr (first_occurrences {} (pushed line_task (text_lines s)))"
proof (cases "text")
  case (JSString s)
  then show ?thesis using that(2) extractTasksFromText_string by simp
qed (use that(1) in \<open>simp_all add: extractTasksFromText_def extract_with_non_string\<close>)

lemma set_pushed: "set (pushed body lines) = {t. \<exists>line\<in>set lines. body line = Inr (Some t)}"
  by (induction lines) (auto simp: pushed_def split: sum.splits option.splits)

lemma pushed_trimmed:
  assumes "t \<in> set (pushed line_task (text_lines s))"
  shows "\<exists>x. t = trim x"
proof -
  from assms obtain line where l: "line \<in> set (text_lines s)" and t: "line_task line = Inr (Some t)"
    by (auto simp: set_pushed)
  from line_task_cases[of line] t have "t = line \<or> (\<exists>g. t = trim g)" by auto
  then show ?thesis using text_lines_trimmed(2)[OF l] by auto
qed

lemma trim_id:
  assumes "t \<noteq> []" "\<not> is_space (hd t)" "\<not> is_space (last t)"
  shows "trim t = t"
proof -
  have "dropWhile is_space t = t" using assms by (simp add: dropWhile_eq_self_iff)
  moreover have "dropWhile is_space (rev t) = rev t"
    using assms by (simp add: dropWhile_eq_self_iff hd_rev)
  ultimately show ?thesis by (simp add: trim_def)
qed

subsection \<open>The extracted tasks\<close>

text \<open>
  C3. The list that \<open>extractTasksFromText\<close> returns for a text holds no string twice.
  It holds every non-empty string that some line produces, once, and in the order of the
  lines that first produce them: of two tasks of the list, the earlier one is first
  produced by an earlier line.
\<close>

theorem extractTasksFromText_first_occurrences:
  assumes "extractTasksFromText (JSString s) = Inr tasks"
  shows "distinct tasks
   \<and> set tasks = {t. t \<noteq> [] \<and> (\<exists>line\<in>set (text_lines s). line_task line = Inr (Some t))}
   \<and> (\<forall>i j. i < j \<longrightarrow> j < length tasks \<longrightarrow>
         (\<exists>a b. a < b \<and> b < length (text_lines s)
            \<and> line_task (text_lines s ! a) = Inr (Some (tasks ! i))
            \<and> (\<forall>a'<a. line_task (text_lines s ! a') \<noteq> Inr (Some (tasks ! i)))
            \<and> line_task (text_lines s ! b) = Inr (Some (tasks ! j))
            \<and> (\<forall>b'<b. line_task (text_lines s ! b') \<noteq> Inr (Some (tasks ! j)))))"
proof -
  let ?lines = "text_lines s"
  let ?fp = "\<lambda>t. length (takeWhile (\<lambda>line. line_task line \<noteq> Inr (Some t)) ?lines)"
  have tasks: "tasks = first_occurrences {} (pushed line_task ?lines)"
    using assms by (simp add: extractTasksFromText_string)
  have d: "distinct tasks"
    unfolding tasks by (rule distinct_first_occurrences)
  have st: "set tasks = {t. t \<noteq> [] \<and> (\<exists>line\<in>set ?lines. line_task line = Inr (Some t))}"
    unfolding tasks by (auto simp: set_first_occurrences set_pushed)
  have ord: "\<exists>a b. a < b \<and> b < length ?lines
            \<and> line_task (?lines ! a) = Inr (Some (tasks ! i))
            \<and> (\<forall>a'<a. line_task (?lines ! a') \<noteq> Inr (Some (tasks ! i)))
            \<and> line_task (?lines ! b) = Inr (Some (tasks ! j))
            \<and> (\<forall>b'<b. line_task (?lines ! b') \<noteq> Inr (Some (tasks ! j)))"
    if ij: "i < j" "j < length tasks" for i j
  proof -
    have "sorted_wrt (<) (map ?fp tasks)"
      unfolding tasks by (rule first_occurrences_order)
    then have lt: "?fp (tasks ! i) < ?fp (tasks ! j)"
      using ij by (simp add: sorted_wrt_iff_nth_less)
    from ij have "tasks ! i \<in> set tasks" "tasks ! j \<in> set tasks" by simp_all
    then obtain li lj where
      li: "li \<in> set ?lines" "line_task li = Inr (Some (tasks ! i))" and
      lj: "lj \<in> set ?lines" "line_task lj = Inr (Some (tasks ! j))"
      unfolding st by auto
    from first_producer[of li ?lines line_task "tasks ! i", OF li]
         first_producer[of lj ?lines line_task "tasks ! j", OF lj] lt
    show ?thesis by blast
  qed
  from d st ord show ?thesis by blast
qed

theorem extractTasksFromText_first_occurrences_witness:
  "extractTasksFromText (JSString (js ''1. Buy milk'' @ [LF] @ js ''- Call Bob'' @ [LF] @ js ''Buy milk''))
     = Inr [js ''Buy milk'', js ''Call Bob'']
   \<and> distinct [js ''Buy milk'', js ''Call Bob'']
   \<and> (\<exists>a b. a < b
         \<and> b < length (text_lines (js ''1. Buy milk'' @ [LF] @ js ''- Call Bob'' @ [LF] @ js ''Buy milk''))
         \<and> line_task (text_lines (js ''1. Buy milk'' @ [LF] @ js ''- Call Bob'' @ [LF] @ js ''Buy milk'') ! a)
             = Inr (Some (js ''Buy milk''))
         \<and> line_task (text_lines (js ''1. Buy milk'' @ [LF] @ js ''- Call Bob'' @ [LF] @ js ''Buy milk'') ! b)
             = Inr (Some (js ''Call Bob'')))"
proof -
  let ?s = "js ''1. Buy milk'' @ [LF] @ js ''- Call Bob'' @ [LF] @ js ''Buy milk''"
  let ?tasks = "[js ''Buy milk'', js ''Call Bob'']"
  have e: "extractTasksFromText (JSString ?s) = Inr ?tasks"
    by code_simp
  note t = extractTasksFromText_first_occurrences[OF e]
  from t have d: "distinct ?tasks" by blast
  from t have "\<forall>i j. i < j \<longrightarrow> j < length ?tasks \<longrightarrow>
         (\<exists>a b. a < b \<and> b < length (text_lines ?s)
            \<and> line_task (text_lines ?s ! a) = Inr (Some (?tasks ! i))
            \<and> (\<forall>a'<a. line_task (text_lines ?s ! a') \<noteq> Inr (Some (?tasks ! i)))
            \<and> line_task (text_lines ?s ! b) = Inr (Some (?tasks ! j))
            \<and> (\<forall>b'<b. line_task (text_lines ?s ! b') \<noteq> Inr (Some (?tasks ! j))))"
    by blast
  from this[THEN spec, of 0, THEN spec, of 1]
  have "\<exists>a b. a < b \<and> b < length (text_lines ?s)
            \<and> line_task (text_lines ?s ! a) = Inr (Some (js ''Buy milk''))
            \<and> line_task (text_lines ?s ! b) = Inr (Some (js ''Call Bob''))"
    by simp blast
  with e d show ?thesis by blast
qed

text \<open>
  C4. Every string of the list that \<open>extractTasksFromText\<close> returns is non-empty and
  neither starts nor ends with white space: \<open>trim\<close> leaves it as it is.
\<close>

theorem extractTasksFromText_trimmed:
  assumes "extractTasksFromText text = Inr tasks" and "t \<in> set tasks"
  shows "t \<noteq> [] \<and> \<not> is_space (hd t) \<and> \<not> is_space (last t) \<and> trim t = t"
proof (cases "text" rule: extractTasksFromText_cases)
  case 1
  with assms show ?thesis by simp
next
  case (2 s)
  with assms have t: "t \<in> set (pushed line_task (text_lines s))" and ne: "t \<noteq> []"
    by (auto simp: set_first_occurrences)
  from pushed_trimmed[OF t] obtain x where "t = trim x" by auto
  with ne trim_ends[of x] have "\<not> is_space (hd t)" "\<not> is_space (last t)" by auto
  with ne show ?thesis by (simp add: trim_id)
qed

theorem extractTasksFromText_trimmed_witness:
  "extractTasksFromText (JSString (js ''  - Call Bob  '')) = Inr [js ''Call Bob'']
   \<and> js ''Call Bob'' \<in> set [js ''Call Bob'']
   \<and> js ''Call Bob'' \<noteq> []
   \<and> \<not> is_space (hd (js ''Call Bob''))
   \<and> \<not> is_space (last (js ''Call Bob''))
   \<and> trim (js ''Call Bob'') = js ''Call Bob''"
proof -
  have e: "extractTasksFromText (JSString (js ''  - Call Bob  '')) = Inr [js ''Call Bob'']"
    by code_simp
  have m: "js ''Call Bob'' \<in> set [js ''Call Bob'']" by simp
  from extractTasksFromText_trimmed[OF e m] e m show ?thesis by simp
qed

text \<open>
  C5. The text \<open>1. Buy milk\<close>, \<open>- Call Bob\<close>, \<open>Summary:\<close>, \<open>Short\<close>, one per line,
  gives the tasks \<open>Buy milk\<close>, \<open>Call Bob\<close>, \<open>Short\<close>: the plain line \<open>Summary:\<close> ends
  with a colon and pushes nothing, the plain line \<open>Short\<close> of length 5 is pushed.
\<close>

theorem extractTasksFromText_example:
  "extractTasksFromText
     (JSString (js ''1. Buy milk'' @ [LF] @ js ''- Call Bob'' @ [LF] @ js ''Summary:'' @ [LF] @ js ''Short''))
   = Inr [js ''Buy milk'', js ''Call Bob'', js ''Short'']
   \<and> line_task (js ''Summary:'') = Inr None
   \<and> length (js ''Short'') = 5
   \<and> line_task (js ''Short'') = Inr (Some (js ''Short''))"
  by code_simp

text \<open>
  C6. \<open>extractTasksFromText\<close> never fails: it returns a list for every value. For
  \<open>null\<close>, \<open>undefined\<close>, the empty string and every value that is not a string the list
  is empty.
\<close>

theorem extractTasksFromText_never_fails:
  "(\<exists>tasks. extractTasksFromText text = Inr tasks)
   \<and> extractTasksFromText JSNull = Inr []
   \<and> extractTasksFromText JSUndefined = Inr []
   \<and> extractTasksFromText (JSString []) = Inr []
   \<and> (\<not> is_string text \<longrightarrow> extractTasksFromText text = Inr [])"
proof -
  have "\<exists>tasks. extractTasksFromText text = Inr tasks"
    by (cases "text" rule: extractTasksFromText_cases) auto
  moreover have "extractTasksFromText v = Inr []" if "\<not> is_string v" for v
    using that by (simp add: extractTasksFromText_def extract_with_non_string)
  moreover have "extractTasksFromText (JSString []) = Inr []"
    by (simp add: extractTasksFromText_def extract_with_def)
  ultimately show ?thesis by simp
qed

theorem extractTasksFromText_never_fails_witness:
  "\<not> is_string (JSOther True) \<and> extractTasksFromText (JSOther True) = Inr []
   \<and> extractTasksFromText (JSBoolean False) = Inr []"
  using extractTasksFromText_never_fails[of "JSOther True"]
    extractTasksFromText_never_fails[of "JSBoolean False"] by simp

text \<open>
  C9. A line with a marker can produce a task of three code units or fewer: \<open>1. ab\<close>
  and \<open>- ab\<close> give the task \<open>ab\<close>. The minimum length belongs to the fourth rule
  only: the plain line \<open>ab\<close> gives nothing.
\<close>

theorem marker_rules_have_no_minimum_length:
  "extractTasksFromText (JSString (js ''1. ab'')) = Inr [js ''ab'']
   \<and> extractTasksFromText (JSString (js ''- ab'')) = Inr [js ''ab'']
   \<and> length (js ''ab'') \<le> 3
   \<and> extractTasksFromText (JSString (js ''ab'')) = Inr []"
  by code_simp

text \<open>
  C10. A line with a marker that ends with a colon still produces its content:
  \<open>1. Setup:\<close> and \<open>* Setup:\<close> give the task \<open>Setup:\<close>. The exclusion of headers
  belongs to the fourth rule only: the plain line \<open>Setup:\<close> gives nothing.
\<close>

theorem marker_rules_keep_colon_lines:
  "extractTasksFromText (JSString (js ''1. Setup:'')) = Inr [js ''Setup:'']
   \<and> extractTasksFromText (JSString (js ''* Setup:'')) = Inr [js ''Setup:'']
   \<and> endsWith (js ''1. Setup:'') COLON
   \<and> js_match numbered_re (js ''1. Setup:'') = Some [js ''1. Setup:'', js ''Setup:'']
   \<and> extractTasksFromText (JSString (js ''Setup:'')) = Inr []"
  by code_simp

subsection \<open>The third rule\<close>

lemma rx_capture_None: "rx_capture cap k m rest = None \<longleftrightarrow> k rest = None"
  by (simp add: rx_capture_def)

lemma rx_greedy_None: "rx_greedy p k acc s = None \<Longrightarrow> k acc s = None"
  by (cases s) (auto split: if_splits option.splits)

lemma rx_greedy_end:
  "rx_greedy p (rx_capture cap rx_end) acc s = None \<longleftrightarrow> \<not> list_all p s"
proof (induction s arbitrary: acc)
  case Nil
  show ?case by (simp add: rx_capture_def rx_end_def)
next
  case (Cons c cs)
  have stop: "rx_capture cap rx_end acc (c # cs) = None"
    by (simp add: rx_capture_def rx_end_def)
  show ?case
  proof (cases "rx_greedy p (rx_capture cap rx_end) (acc @ [c]) cs")
    case None
    with Cons.IH[of "acc @ [c]"] have "\<not> list_all p cs" by simp
    with None stop show ?thesis by simp
  next
    case (Some r)
    with Cons.IH[of "acc @ [c]"] have "list_all p cs" by simp
    with Some stop show ?thesis by simp
  qed
qed

lemma rx_plus_end:
  "rx_atom \<lparr>cls = p, quant = Plus, captured = cap\<rparr> rx_end s = None \<longleftrightarrow> s = [] \<or> \<not> list_all p s"
  by (cases s) (auto simp: rx_atom_def rx_greedy_end)

lemma bullet_re_Cons:
  "js_match bullet_re (c # cs) = None \<longleftrightarrow>
     \<not> is_bullet c
     \<or> rx_atom \<lparr>cls = is_space, quant = Plus, captured = False\<rparr>
          (rx_atom \<lparr>cls = is_any, quant = Plus, captured = True\<rparr> rx_end) cs = None"
  by (simp add: js_match_def bullet_re_def rx_atom_def[of "\<lparr>cls = is_bullet, quant = One, captured = False\<rparr>"]
        rx_capture_None)

lemma dash_re_Cons:
  "js_match dash_re (c # cs) = None \<longleftrightarrow>
     c \<noteq> HYPHEN
     \<or> rx_atom \<lparr>cls = is_space, quant = Star, captured = False\<rparr>
          (rx_atom \<lparr>cls = is_any, quant = Plus, captured = True\<rparr> rx_end) cs = None"
  by (simp add: js_match_def dash_re_def rx_atom_def[of "\<lparr>cls = is_hyphen, quant = One, captured = False\<rparr>"]
        rx_capture_None is_hyphen_def)

lemma rule3_subsumed:
  assumes ne: "line \<noteq> []" and last: "\<not> is_space (last line)"
    and glued: "\<not> hyphen_glued line"
    and bullet: "js_match bullet_re line = None"
  shows "js_match dash_re line = None"
proof (cases line)
  case Nil
  with ne show ?thesis by simp
next
  case (Cons c rest)
  let ?K = "rx_atom \<lparr>cls = is_any, quant = Plus, captured = True\<rparr> rx_end"
  show ?thesis
  proof (cases "c = HYPHEN")
    case False
    then show ?thesis by (simp add: Cons dash_re_Cons)
  next
    case True
    then have b: "is_bullet c" by (simp add: is_bullet_def)
    show ?thesis
    proof (cases rest)
      case Nil
      then show ?thesis
        by (simp add: Cons dash_re_Cons rx_atom_def[of "\<lparr>cls = is_space, quant = Star, captured = False\<rparr>"]
              rx_capture_None rx_plus_end)
    next
      case (Cons d cs)
      with glued True \<open>line = c # rest\<close> have d: "is_space d" by (simp add: hyphen_glued_def)
      have cs: "cs \<noteq> []"
        using last d Cons \<open>line = c # rest\<close> by auto
      from bullet b have "rx_atom \<lparr>cls = is_space, quant = Plus, captured = False\<rparr> ?K (d # cs) = None"
        by (simp add: \<open>line = c # rest\<close> Cons bullet_re_Cons)
      then have g: "rx_greedy is_space (rx_capture False ?K) [d] cs = None"
        using d by (simp add: rx_atom_def[of "\<lparr>cls = is_space, quant = Plus, captured = False\<rparr>"])
      from rx_greedy_None[OF g] have "?K cs = None" by (simp add: rx_capture_None)
      with cs have "\<not> list_all is_any cs" by (simp add: rx_plus_end)
      then have "?K (d # cs) = None" by (simp add: rx_plus_end)
      with g d have "rx_atom \<lparr>cls = is_space, quant = Star, captured = False\<rparr> ?K (d # cs) = None"
        by (simp add: rx_atom_def[of "\<lparr>cls = is_space, quant = Star, captured = False\<rparr>"] rx_capture_None)
      then show ?thesis
        by (simp add: \<open>line = c # rest\<close> Cons dash_re_Cons)
    qed
  qed
qed

lemma line_task_without_rule3_eq:
  assumes "js_match bullet_re line = None \<longrightarrow> js_match dash_re line = None"
  shows "line_task_without_rule3 line = line_task line"
  using assms by (auto simp: line_task_def line_task_without_rule3_def split: option.splits)

lemma pushed_cong:
  "(\<And>line. line \<in> set lines \<Longrightarrow> body line = body' line) \<Longrightarrow> pushed body lines = pushed body' lines"
  unfolding pushed_def by (induction lines) simp_all

text \<open>
  C7. The third rule is reached, and matches, only on a line whose leading hyphen is
  directly followed by a code unit that is not white space, a line the second rule does
  not match. For a text with no such line, removing the third rule changes nothing:
  where white space follows the hyphen, the second rule matches whenever the third would.
\<close>

theorem rule3_reached_by_glued_hyphen_only:
  "(\<forall>line\<in>set (text_lines s).
      js_match bullet_re line = None \<longrightarrow> js_match dash_re line \<noteq> None \<longrightarrow> hyphen_glued line)
   \<and> ((\<forall>line\<in>set (text_lines s). \<not> hyphen_glued line) \<longrightarrow>
        extractTasksFromText_without_rule3 (JSString s) = extractTasksFromText (JSString s))"
proof -
  have sub: "hyphen_glued line"
    if "line \<in> set (text_lines s)" "js_match bullet_re line = None" "js_match dash_re line \<noteq> None"
    for line
    using rule3_subsumed[of line] text_lines_trimmed(1)[OF that(1)] text_lines_ends(2)[OF that(1)]
      that(2,3) by blast
  have "extractTasksFromText_without_rule3 (JSString s) = extractTasksFromText (JSString s)"
    if none: "\<forall>line\<in>set (text_lines s). \<not> hyphen_glued line"
  proof -
    have "line_task_without_rule3 line = line_task line" if "line \<in> set (text_lines s)" for line
      using sub[OF that] none that by (intro line_task_without_rule3_eq) blast
    then have "pushed line_task_without_rule3 (text_lines s) = pushed line_task (text_lines s)"
      by (rule pushed_cong)
    then show ?thesis
      by (simp add: extractTasksFromText_string extractTasksFromText_without_rule3_def
            extract_with_string[OF line_task_without_rule3_total])
  qed
  with sub show ?thesis by blast
qed

theorem rule3_reached_by_glued_hyphen_only_witness:
  "text_lines (js ''- Call Bob'' @ [LF] @ js ''-'' @ [LF] @ js ''Short'')
     = [js ''- Call Bob'', js ''-'', js ''Short'']
   \<and> \<not> hyphen_glued (js ''- Call Bob'') \<and> \<not> hyphen_glued (js ''-'') \<and> \<not> hyphen_glued (js ''Short'')
   \<and> extractTasksFromText_without_rule3 (JSString (js ''- Call Bob'' @ [LF] @ js ''-'' @ [LF] @ js ''Short''))
       = extractTasksFromText (JSString (js ''- Call Bob'' @ [LF] @ js ''-'' @ [LF] @ js ''Short''))
   \<and> extractTasksFromText (JSString (js ''- Call Bob'' @ [LF] @ js ''-'' @ [LF] @ js ''Short''))
       = Inr [js ''Call Bob'', js ''Short'']"
proof -
  let ?s = "js ''- Call Bob'' @ [LF] @ js ''-'' @ [LF] @ js ''Short''"
  have l: "text_lines ?s = [js ''- Call Bob'', js ''-'', js ''Short'']"
    by code_simp
  have g: "\<not> hyphen_glued (js ''- Call Bob'')" "\<not> hyphen_glued (js ''-'')" "\<not> hyphen_glued (js ''Short'')"
    by code_simp+
  have e: "extractTasksFromText (JSString ?s) = Inr [js ''Call Bob'', js ''Short'']"
    by code_simp
  have h: "\<forall>line\<in>set (text_lines ?s). \<not> hyphen_glued line"
    unfolding l using g by simp
  from rule3_reached_by_glued_hyphen_only[of ?s] h
  have "extractTasksFromText_without_rule3 (JSString ?s) = extractTasksFromText (JSString ?s)"
    by blast
  with l g e show ?thesis by blast
qed

text \<open>
  The third rule is not dead code: with it the line \<open>-item\<close> gives the task \<open>item\<close>,
  without it the fourth rule takes the whole line.
\<close>

theorem rule3_is_reachable:
  "extractTasksFromText (JSString (js ''-item'')) = Inr [js ''item'']
   \<and> extractTasksFromText_without_rule3 (JSString (js ''-item'')) = Inr [js ''-item'']
   \<and> extractTasksFromText_without_rule3 (JSString (js ''-item'')) \<noteq> extractTasksFromText (JSString (js ''-item''))"
  by code_simp

end
